theory Spec2Isabelle
  imports Main
begin

section \<open>The key/value splitter of plugins/processor/split/keyvalue\<close>

text \<open>
  A shallow embedding of \<^verbatim>\<open>key_value_splitter.go\<close>. Go strings are byte sequences
  and are modelled as \<open>string\<close> (a \<open>char list\<close>); Go's \<open>int\<close> is modelled as \<open>int\<close>
  (every index is bounded by the length of a string, so the 64-bit range is never left).
  A slice expression out of range panics in Go; it is the error value
  \<open>SliceBoundsOutOfRange\<close> here. The loop of \<open>splitKeyValue\<close> may run forever, so it is
  defined as a partial function into \<open>option\<close>, where \<open>None\<close> is "does not return".
\<close>

subsection \<open>Strings of the Go standard library\<close>

datatype error = SliceBoundsOutOfRange

text \<open>\<^verbatim>\<open>s[:j]\<close> and \<^verbatim>\<open>s[i:]\<close>.\<close>

definition slice_to :: "string \<Rightarrow> int \<Rightarrow> error + string" where
  "slice_to str j =
     (if 0 \<le> j \<and> j \<le> int (length str) then Inr (take (nat j) str)
      else Inl SliceBoundsOutOfRange)"

definition slice_from :: "string \<Rightarrow> int \<Rightarrow> error + string" where
  "slice_from str i =
     (if 0 \<le> i \<and> i \<le> int (length str) then Inr (drop (nat i) str)
      else Inl SliceBoundsOutOfRange)"

text \<open>\<^verbatim>\<open>strings.HasPrefix\<close> and \<^verbatim>\<open>strings.HasSuffix\<close>.\<close>

definition HasPrefix :: "string \<Rightarrow> string \<Rightarrow> bool" where
  "HasPrefix str pre = (length pre \<le> length str \<and> take (length pre) str = pre)"

definition HasSuffix :: "string \<Rightarrow> string \<Rightarrow> bool" where
  "HasSuffix str suf =
     (length suf \<le> length str \<and> drop (length str - length suf) str = suf)"

text \<open>
  \<^verbatim>\<open>strings.Index(s, substr)\<close>: the index of the first instance of \<open>substr\<close> in \<open>s\<close>,
  or \<open>-1\<close> if there is none; the empty string is found at index 0.
\<close>

fun strings_Index :: "string \<Rightarrow> string \<Rightarrow> int" where
  "strings_Index [] sub = (if sub = [] then 0 else - 1)"
| "strings_Index (c # cs) sub =
     (if HasPrefix (c # cs) sub then 0
      else (let i = strings_Index cs sub in if i = - 1 then - 1 else i + 1))"

text \<open>\<^verbatim>\<open>strconv.Itoa\<close>: the decimal digits of an integer, with a sign when negative.\<close>

definition digit_char :: "nat \<Rightarrow> char" where
  "digit_char n = ''0123456789'' ! n"

function digits :: "nat \<Rightarrow> string" where
  "digits n = (if n < 10 then [digit_char n] else digits (n div 10) @ [digit_char (n mod 10)])"
  by pat_completeness auto
termination
  by (relation "measure id") auto

declare digits.simps [simp del]

definition Itoa :: "int \<Rightarrow> string" where
  "Itoa i = (if i < 0 then ''-'' @ digits (nat (- i)) else digits (nat i))"

subsection \<open>Configuration and records\<close>

record KeyValueSplitter =
  SourceKey :: string
  Delimiter :: string
  Separator :: string
  KeepSource :: bool
  EmptyKeyPrefix :: string
  NoSeparatorKeyPrefix :: string
  QuoteFlag :: bool
  Quote :: string
  DiscardWhenSeparatorNotFound :: bool
  ErrIfSourceKeyNotFound :: bool
  ErrIfSeparatorNotFound :: bool
  ErrIfKeyIsEmpty :: bool

text \<open>\<^verbatim>\<open>protocol.Log_Content\<close>; a log is the list \<^verbatim>\<open>log.Contents\<close> of them.\<close>

record Log_Content =
  Key :: string
  Value :: string

text \<open>
  The calls of \<^verbatim>\<open>logger.Warningf\<close> with alarm type \<^verbatim>\<open>KV_SPLITTER_ALARM\<close>, by their
  format string and argument, in the order they are made.
\<close>

datatype alarm =
  CanNotFindKey string
  | CanNotFindSeparator string
  | KeyIsEmpty string

definition defaultDelimiter :: string where
  "defaultDelimiter = [CHR 0x09]"

definition defaultSeparator :: string where
  "defaultSeparator = '':''"

definition defaultEmptyKeyPrefix :: string where
  "defaultEmptyKeyPrefix = ''empty_key_''"

definition defaultNoSeparatorKeyPrefix :: string where
  "defaultNoSeparatorKeyPrefix = ''no_separator_key_''"

definition Init :: "KeyValueSplitter \<Rightarrow> KeyValueSplitter" where
  "Init s =
     (let s = (if length (Delimiter s) = 0 then s\<lparr>Delimiter := defaultDelimiter\<rparr> else s);
          s = (if length (Separator s) = 0 then s\<lparr>Separator := defaultSeparator\<rparr> else s);
          s = (if length (EmptyKeyPrefix s) = 0
               then s\<lparr>EmptyKeyPrefix := defaultEmptyKeyPrefix\<rparr> else s);
          s = (if length (NoSeparatorKeyPrefix s) = 0
               then s\<lparr>NoSeparatorKeyPrefix := defaultNoSeparatorKeyPrefix\<rparr> else s)
      in s)"

text \<open>Fields that the Go literal leaves out have their zero value.\<close>

definition newKeyValueSplitter :: KeyValueSplitter where
  "newKeyValueSplitter =
     \<lparr>SourceKey = [],
      Delimiter = defaultDelimiter,
      Separator = defaultSeparator,
      KeepSource = True,
      EmptyKeyPrefix = defaultEmptyKeyPrefix,
      NoSeparatorKeyPrefix = defaultNoSeparatorKeyPrefix,
      QuoteFlag = False,
      Quote = [],
      DiscardWhenSeparatorNotFound = False,
      ErrIfSourceKeyNotFound = True,
      ErrIfSeparatorNotFound = True,
      ErrIfKeyIsEmpty = True\<rparr>"

subsection \<open>Dequoting and quote extension\<close>

text \<open>
  \<open>getValue\<close>: the slice \<^verbatim>\<open>value[len(s.Quote) : len(value)-len(s.Quote)]\<close> is in range
  by the length test that guards it.
\<close>

definition getValue :: "KeyValueSplitter \<Rightarrow> string \<Rightarrow> string" where
  "getValue s v =
     (if QuoteFlag s \<and> length (Quote s) > 0 then
        (if length v \<ge> 2 * length (Quote s) \<and> HasPrefix v (Quote s) \<and> HasSuffix v (Quote s)
         then take (length v - length (Quote s) - length (Quote s)) (drop (length (Quote s)) v)
         else v)
      else v)"

text \<open>
  \<open>concatQuotePair\<close>: the slice \<^verbatim>\<open>content[dIdx+1:]\<close> is taken before the test on the
  pair, and \<^verbatim>\<open>content[:dIdx]\<close> after the boundary has moved; both can panic.
\<close>

definition concatQuotePair ::
  "KeyValueSplitter \<Rightarrow> string \<Rightarrow> string \<Rightarrow> int \<Rightarrow> error + (string \<times> int)" where
  "concatQuotePair s pair cont d =
     (if QuoteFlag s \<and> length (Quote s) > 0 \<and> \<not> HasSuffix pair (Quote s) then
        (case slice_from cont (d + 1) of
           Inl e \<Rightarrow> Inl e
         | Inr rest \<Rightarrow>
             (let lastQuote = strings_Index rest (Quote s) in
              if strings_Index pair (Separator s @ Quote s) > 0 \<or> HasPrefix pair (Quote s) then
                (let lastQuote = lastQuote + int (length (Separator s @ Quote s)) in
                 if lastQuote > 0 then
                   (case slice_to cont (d + lastQuote) of
                      Inl e \<Rightarrow> Inl e
                    | Inr pair' \<Rightarrow> Inr (pair', d + lastQuote))
                 else Inr (pair, d))
              else Inr (pair, d)))
      else Inr (pair, d))"

subsection \<open>The scan\<close>

text \<open>
  The local variables of \<open>splitKeyValue\<close>, the fields of the log and the alarms raised so
  far. \<open>origins\<close> is a ghost variable that is not in the source: it records, for each
  field the scan has appended, which branch appended it. Nothing reads it.
\<close>

datatype origin = NoSeparatorKey | EmptyKey | PlainKey

record scan =
  content :: string
  dIdx :: int
  emptyKeyIndex :: int
  noSeparatorKeyIndex :: int
  Contents :: "Log_Content list"
  alarms :: "alarm list"
  origins :: "origin list"

text \<open>Lines 113 to 137 of the source: one pair is turned into at most one field.\<close>

definition handlePair :: "KeyValueSplitter \<Rightarrow> string \<Rightarrow> scan \<Rightarrow> error + scan" where
  "handlePair s pair st =
     (let pos = strings_Index pair (Separator s) in
      if pos = - 1 then
        (let st = (if ErrIfSeparatorNotFound s
                   then st\<lparr>alarms := alarms st @ [CanNotFindSeparator pair]\<rparr> else st)
         in if \<not> DiscardWhenSeparatorNotFound s then
              Inr (st\<lparr>Contents := Contents st @
                         [\<lparr>Key = NoSeparatorKeyPrefix s @ Itoa (noSeparatorKeyIndex st),
                           Value = getValue s pair\<rparr>],
                       origins := origins st @ [NoSeparatorKey],
                       noSeparatorKeyIndex := noSeparatorKeyIndex st + 1\<rparr>)
            else Inr st)
      else
        (case slice_to pair pos of
           Inl e \<Rightarrow> Inl e
         | Inr k \<Rightarrow>
             (case slice_from pair (pos + int (length (Separator s))) of
                Inl e \<Rightarrow> Inl e
              | Inr v \<Rightarrow>
                  (let val = getValue s v in
                   if length k = 0 then
                     (let k' = EmptyKeyPrefix s @ Itoa (emptyKeyIndex st);
                          st = st\<lparr>emptyKeyIndex := emptyKeyIndex st + 1\<rparr>;
                          st = (if ErrIfKeyIsEmpty s
                                then st\<lparr>alarms := alarms st @ [KeyIsEmpty val]\<rparr> else st)
                      in Inr (st\<lparr>Contents := Contents st @ [\<lparr>Key = k', Value = val\<rparr>],
                                 origins := origins st @ [EmptyKey]\<rparr>))
                   else
                     Inr (st\<lparr>Contents := Contents st @ [\<lparr>Key = k, Value = val\<rparr>],
                             origins := origins st @ [PlainKey]\<rparr>)))))"

text \<open>
  One iteration of the loop of \<open>splitKeyValue\<close>. The result is a panic, or the state after
  the iteration together with whether the loop was left by \<^verbatim>\<open>break\<close>.
\<close>

definition loopBody :: "KeyValueSplitter \<Rightarrow> scan \<Rightarrow> error + (bool \<times> scan)" where
  "loopBody s st =
     (let d = strings_Index (content st) (Delimiter s) in
      case (if d = - 1 then Inr (content st) else slice_to (content st) d) of
        Inl e \<Rightarrow> Inl e
      | Inr pair \<Rightarrow>
          (case concatQuotePair s pair (content st) d of
             Inl e \<Rightarrow> Inl e
           | Inr (pair, d) \<Rightarrow>
               (case handlePair s pair (st\<lparr>dIdx := d\<rparr>) of
                  Inl e \<Rightarrow> Inl e
                | Inr st \<Rightarrow>
                    if d = - 1 then Inr (True, st)
                    else if d + int (length (Delimiter s)) \<le> int (length (content st)) then
                      (case slice_from (content st) (d + int (length (Delimiter s))) of
                         Inl e \<Rightarrow> Inl e
                       | Inr c \<Rightarrow> Inr (False, st\<lparr>content := c\<rparr>))
                    else Inr (False, st))))"

text \<open>
  The loop \<^verbatim>\<open>for dIdx < len(content) { ... }\<close>: the test reads the \<open>dIdx\<close> that the
  previous iteration left and the \<open>content\<close> that it cut.
\<close>

partial_function (option) splitLoop :: "KeyValueSplitter \<Rightarrow> scan \<Rightarrow> (error + scan) option" where
  "splitLoop s st =
     (if dIdx st < int (length (content st)) then
        (case loopBody s st of
           Inl e \<Rightarrow> Some (Inl e)
         | Inr (brk, st') \<Rightarrow> if brk then Some (Inr st') else splitLoop s st')
      else Some (Inr st))"

declare splitLoop.simps [code]

definition initScan :: "Log_Content list \<Rightarrow> string \<Rightarrow> scan" where
  "initScan log c =
     \<lparr>content = c, dIdx = 0, emptyKeyIndex = 0, noSeparatorKeyIndex = 0,
      Contents = log, alarms = [], origins = []\<rparr>"

text \<open>
  \<open>splitKeyValue\<close> on a log with fields \<open>log\<close>: the fields of the log afterwards and the
  alarms raised, \<open>Inl\<close> for a panic, \<open>None\<close> when the loop does not end.
\<close>

definition splitKeyValue ::
  "KeyValueSplitter \<Rightarrow> Log_Content list \<Rightarrow> string \<Rightarrow> (error + Log_Content list \<times> alarm list) option" where
  "splitKeyValue s log c =
     map_option (map_sum id (\<lambda>st. (Contents st, alarms st))) (splitLoop s (initScan log c))"


subsection \<open>Processing a record\<close>

text \<open>
  The \<^verbatim>\<open>range\<close> loop of \<open>processLog\<close> up to its \<^verbatim>\<open>break\<close>: the index and the entry of
  the first field that is the source.
\<close>

fun rangeContents :: "KeyValueSplitter \<Rightarrow> Log_Content list \<Rightarrow> nat \<Rightarrow> (nat \<times> Log_Content) option" where
  "rangeContents s [] idx = None"
| "rangeContents s (c # cs) idx =
     (if length (SourceKey s) = 0 \<or> SourceKey s = Key c then Some (idx, c)
      else rangeContents s cs (Suc idx))"

definition processLog ::
  "KeyValueSplitter \<Rightarrow> Log_Content list \<Rightarrow> (error + Log_Content list \<times> alarm list) option" where
  "processLog s log =
     (case rangeContents s log 0 of
        Some (idx, c) \<Rightarrow>
          splitKeyValue s
            (if \<not> KeepSource s then take idx log @ drop (idx + 1) log else log) (Value c)
      | None \<Rightarrow>
          Some (Inr (log, if ErrIfSourceKeyNotFound s then [CanNotFindKey (SourceKey s)] else [])))"

subsection \<open>Configurations and source values of the scenarios\<close>

text \<open>The default configuration with quoting enabled and the quote \<^verbatim>\<open>"\<close>.\<close>

definition quoteSplitter :: KeyValueSplitter where
  "quoteSplitter = newKeyValueSplitter\<lparr>QuoteFlag := True, Quote := [CHR 0x22]\<rparr>"

text \<open>The same with a delimiter of two tabs, and with the separator \<^verbatim>\<open>::\<close>.\<close>

definition twoTabSplitter :: KeyValueSplitter where
  "twoTabSplitter = quoteSplitter\<lparr>Delimiter := [CHR 0x09, CHR 0x09]\<rparr>"

definition wideSeparatorSplitter :: KeyValueSplitter where
  "wideSeparatorSplitter = quoteSplitter\<lparr>Separator := ''::''\<rparr>"

text \<open>The default configuration that discards a pair with no separator.\<close>

definition discardSplitter :: KeyValueSplitter where
  "discardSplitter = newKeyValueSplitter\<lparr>DiscardWhenSeparatorNotFound := True\<rparr>"

text \<open>Scenario 5: the source field \<open>msg\<close> is removed from the record.\<close>

definition scenario5Splitter :: KeyValueSplitter where
  "scenario5Splitter = newKeyValueSplitter\<lparr>SourceKey := ''msg'', KeepSource := False\<rparr>"

definition scenario5Log :: "Log_Content list" where
  "scenario5Log = [\<lparr>Key = ''msg'', Value = ''a:1''\<rparr>, \<lparr>Key = ''x'', Value = ''y''\<rparr>]"

text \<open>The source value \<^verbatim>\<open>c:"x\t\ty"z\<close>.\<close>

definition twoTabContent :: string where
  "twoTabContent = ''c:'' @ [CHR 0x22] @ ''x'' @ [CHR 0x09, CHR 0x09] @ ''y'' @ [CHR 0x22] @ ''z''"

text \<open>
  The source value \<^verbatim>\<open>:1\tx\t:2\ty\tk:v\<close>, with two empty keys and two pairs without a
  separator, and the state in which its scan ends under the default configuration.
\<close>

definition counterContent :: string where
  "counterContent =
     '':1'' @ [CHR 0x09] @ ''x'' @ [CHR 0x09] @ '':2'' @ [CHR 0x09] @ ''y'' @ [CHR 0x09] @ ''k:v''"

definition counterEnd :: scan where
  "counterEnd =
     \<lparr>content = ''k:v'', dIdx = - 1, emptyKeyIndex = 2, noSeparatorKeyIndex = 2,
      Contents =
        [\<lparr>Key = ''empty_key_0'', Value = ''1''\<rparr>,
         \<lparr>Key = ''no_separator_key_0'', Value = ''x''\<rparr>,
         \<lparr>Key = ''empty_key_1'', Value = ''2''\<rparr>,
         \<lparr>Key = ''no_separator_key_1'', Value = ''y''\<rparr>,
         \<lparr>Key = ''k'', Value = ''v''\<rparr>],
      alarms =
        [KeyIsEmpty ''1'', CanNotFindSeparator ''x'', KeyIsEmpty ''2'', CanNotFindSeparator ''y''],
      origins = [EmptyKey, NoSeparatorKey, EmptyKey, NoSeparatorKey, PlainKey]\<rparr>"

subsection \<open>The invariant of the two counters\<close>

text \<open>
  What holds of the scan of a log that had the fields \<open>log\<close> when the scan began: the log
  is \<open>log\<close> followed by one field for each entry of \<open>origins\<close>, each counter is the
  number of keys of its kind made so far, and a made key ends in the number of keys of its
  kind made before it.
\<close>

definition scanInv :: "KeyValueSplitter \<Rightarrow> Log_Content list \<Rightarrow> scan \<Rightarrow> bool" where
  "scanInv s log st =
     (\<exists>more. Contents st = log @ more \<and> length more = length (origins st) \<and>
        emptyKeyIndex st = int (count_list (origins st) EmptyKey) \<and>
        noSeparatorKeyIndex st = int (count_list (origins st) NoSeparatorKey) \<and>
        (\<forall>i<length more.
           (origins st ! i = EmptyKey \<longrightarrow>
              Key (more ! i) =
                EmptyKeyPrefix s @ Itoa (int (count_list (take i (origins st)) EmptyKey))) \<and>
           (origins st ! i = NoSeparatorKey \<longrightarrow>
              Key (more ! i) =
                NoSeparatorKeyPrefix s @
                Itoa (int (count_list (take i (origins st)) NoSeparatorKey)))))"

lemmas config_defs =
  newKeyValueSplitter_def defaultDelimiter_def defaultSeparator_def
  defaultEmptyKeyPrefix_def defaultNoSeparatorKeyPrefix_def

lemmas scan_defs =
  loopBody_def handlePair_def concatQuotePair_def getValue_def HasPrefix_def HasSuffix_def
  slice_to_def slice_from_def

section \<open>Facts about the library functions and one pair\<close>

lemma strings_Index_range:
  "strings_Index str sub = - 1 \<or>
   (0 \<le> strings_Index str sub \<and> strings_Index str sub + int (length sub) \<le> int (length str))"
proof (induction str)
  case Nil
  then show ?case by simp
next
  case (Cons c cs)
  then show ?case by (auto simp: HasPrefix_def Let_def)
qed

lemma strings_Index_HasPrefix: "HasPrefix str sub \<Longrightarrow> strings_Index str sub = 0"
  by (cases str) (auto simp: HasPrefix_def)


lemma Itoa_0: "Itoa 0 = ''0''"
  by (simp add: Itoa_def digits.simps digit_char_def)

lemma Init_nonempty: "Delimiter (Init s) \<noteq> [] \<and> Separator (Init s) \<noteq> []"
  by (simp add: Init_def Let_def defaultDelimiter_def defaultSeparator_def)

lemma Init_QuoteFlag: "QuoteFlag (Init s) = QuoteFlag s"
  by (simp add: Init_def Let_def)

text \<open>The slices of \<open>handlePair\<close> are in range: it never panics, and appends at most one field.\<close>

lemma handlePair_Inr:
  "\<exists>st'. handlePair s pair st = Inr st' \<and> content st' = content st \<and> dIdx st' = dIdx st \<and>
     (\<exists>more. Contents st' = Contents st @ more \<and> length more \<le> 1)"
proof -
  let ?pos = "strings_Index pair (Separator s)"
  show ?thesis
  proof (cases "?pos = - 1")
    case True
    then show ?thesis by (simp add: handlePair_def Let_def)
  next
    case False
    with strings_Index_range[of pair "Separator s"]
    have "0 \<le> ?pos" "?pos + int (length (Separator s)) \<le> int (length pair)" by auto
    with False show ?thesis
      by (simp add: handlePair_def Let_def slice_to_def slice_from_def)
  qed
qed

lemma handlePair_alarms:
  "handlePair s pair (st\<lparr>alarms := x @ alarms st\<rparr>) =
     map_sum id (\<lambda>t. t\<lparr>alarms := x @ alarms t\<rparr>) (handlePair s pair st)"
  by (simp add: handlePair_def Let_def split: sum.splits)

text \<open>When the quote extension does not apply, the pair and its boundary stay as they are.\<close>

lemma concatQuotePair_noquote:
  "\<not> (QuoteFlag s \<and> Quote s \<noteq> []) \<Longrightarrow> concatQuotePair s pair c d = Inr (pair, d)"
  by (auto simp: concatQuotePair_def)

lemma concatQuotePair_not_applied:
  assumes "\<not> QuoteFlag s \<or> Quote s = [] \<or> HasSuffix pair (Quote s) \<or>
           (strings_Index pair (Separator s @ Quote s) \<le> 0 \<and> \<not> HasPrefix pair (Quote s))"
    and "0 \<le> d + 1" and "d + 1 \<le> int (length c)"
  shows "concatQuotePair s pair c d = Inr (pair, d)"
  using assms by (auto simp: concatQuotePair_def slice_from_def Let_def)


section \<open>Facts about one iteration\<close>

lemma loopBody_handlePair:
  assumes "loopBody s st = Inr (brk, st')"
  shows "\<exists>pair d st1. handlePair s pair (st\<lparr>dIdx := d\<rparr>) = Inr st1 \<and>
           (st' = st1 \<or> (\<exists>c. st' = st1\<lparr>content := c\<rparr>))"
  using assms
  by (auto simp: loopBody_def Let_def split: sum.splits if_splits prod.splits)

lemma loopBody_Contents:
  assumes "loopBody s st = Inr (brk, st')"
  shows "\<exists>more. Contents st' = Contents st @ more"
proof -
  from loopBody_handlePair[OF assms] obtain pair d st1 where
    h: "handlePair s pair (st\<lparr>dIdx := d\<rparr>) = Inr st1" and
    e: "st' = st1 \<or> (\<exists>c. st' = st1\<lparr>content := c\<rparr>)" by blast
  from handlePair_Inr[of s pair "st\<lparr>dIdx := d\<rparr>"] h
  have "\<exists>more. Contents st1 = Contents st @ more" by auto
  with e show ?thesis by auto
qed


text \<open>An iteration in which the quote extension leaves the pair alone.\<close>

lemma loopBody_plain:
  assumes d: "d = strings_Index (content st) (Delimiter s)"
    and p: "pair = (if d = - 1 then content st else take (nat d) (content st))"
    and c: "concatQuotePair s pair (content st) d = Inr (pair, d)"
  shows "\<exists>st1. handlePair s pair (st\<lparr>dIdx := d\<rparr>) = Inr st1 \<and>
           loopBody s st =
             Inr (if d = - 1 then (True, st1)
                  else (False, st1\<lparr>content := drop (nat d + length (Delimiter s)) (content st)\<rparr>))"
proof -
  from handlePair_Inr[of s pair "st\<lparr>dIdx := d\<rparr>"] obtain st1 where
    h: "handlePair s pair (st\<lparr>dIdx := d\<rparr>) = Inr st1" and c1: "content st1 = content st"
    by auto
  from strings_Index_range[of "content st" "Delimiter s"] d
  have r: "d = - 1 \<or> (0 \<le> d \<and> d + int (length (Delimiter s)) \<le> int (length (content st)))"
    by simp
  have "loopBody s st =
          Inr (if d = - 1 then (True, st1)
               else (False, st1\<lparr>content := drop (nat d + length (Delimiter s)) (content st)\<rparr>))"
  proof (cases "d = - 1")
    case True
    with d p c h show ?thesis by (simp add: loopBody_def Let_def)
  next
    case False
    with r have b: "0 \<le> d" "d + int (length (Delimiter s)) \<le> int (length (content st))" by auto
    then have n: "nat (d + int (length (Delimiter s))) = nat d + length (Delimiter s)" by simp
    from False b d[symmetric] p c h c1 n show ?thesis
      by (simp add: loopBody_def Let_def slice_to_def slice_from_def)
  qed
  with h show ?thesis by blast
qed

text \<open>Alarms are only ever appended: an iteration does not read them.\<close>

lemma loopBody_alarms:
  "loopBody s (st\<lparr>alarms := x @ alarms st\<rparr>) =
     map_sum id (\<lambda>(b, t). (b, t\<lparr>alarms := x @ alarms t\<rparr>)) (loopBody s st)"
proof -
  define d0 where "d0 = strings_Index (content st) (Delimiter s)"
  define pr where "pr = (if d0 = - 1 then Inr (content st) else slice_to (content st) d0)"
  define tl where "tl = (\<lambda>(d::int) (t::scan).
      if d = - 1 then Inr (True, t)
      else if d + int (length (Delimiter s)) \<le> int (length (content t)) then
        (case slice_from (content t) (d + int (length (Delimiter s))) of
           Inl e \<Rightarrow> Inl e
         | Inr c \<Rightarrow> Inr (False, t\<lparr>content := c\<rparr>))
      else (Inr (False, t) :: error + bool \<times> scan))"
  have body: "loopBody s u =
      (case pr of Inl e \<Rightarrow> Inl e
       | Inr pair \<Rightarrow>
          (case concatQuotePair s pair (content st) d0 of Inl e \<Rightarrow> Inl e
           | Inr (pair, d) \<Rightarrow>
              (case handlePair s pair (u\<lparr>dIdx := d\<rparr>) of Inl e \<Rightarrow> Inl e
               | Inr t \<Rightarrow> tl d t)))"
    if "content u = content st" for u
    unfolding loopBody_def d0_def pr_def tl_def Let_def that by (rule refl)
  have h: "handlePair s pair (st\<lparr>alarms := x @ alarms st, dIdx := d\<rparr>) =
        map_sum id (\<lambda>t. t\<lparr>alarms := x @ alarms t\<rparr>) (handlePair s pair (st\<lparr>dIdx := d\<rparr>))"
    for pair d
  proof -
    have "st\<lparr>alarms := x @ alarms st, dIdx := d\<rparr> =
          (st\<lparr>dIdx := d\<rparr>)\<lparr>alarms := x @ alarms (st\<lparr>dIdx := d\<rparr>)\<rparr>"
      by (cases st) simp
    then show ?thesis by (simp only: handlePair_alarms)
  qed
  have t: "tl d (t\<lparr>alarms := x @ alarms t\<rparr>) =
        map_sum id (\<lambda>(b, t). (b, t\<lparr>alarms := x @ alarms t\<rparr>)) (tl d t)" for d t
    by (simp add: tl_def slice_from_def)
  show ?thesis
  proof (cases pr)
    case (Inl e)
    then show ?thesis by (simp add: body)
  next
    case (Inr pair)
    show ?thesis
    proof (cases "concatQuotePair s pair (content st) d0")
      case (Inl e)
      with Inr show ?thesis by (simp add: body)
    next
      case cq: (Inr q)
      obtain pair' d where q: "q = (pair', d)" by (cases q)
      show ?thesis
      proof (cases "handlePair s pair' (st\<lparr>dIdx := d\<rparr>)")
        case (Inl e)
        with Inr cq q show ?thesis by (simp add: body h)
      next
        case hp: (Inr u)
        with Inr cq q show ?thesis by (simp add: body h t)
      qed
    qed
  qed
qed

section \<open>Facts about the loop\<close>

text \<open>What an iteration preserves holds when the loop returns.\<close>

lemma splitLoop_invariant:
  assumes run: "splitLoop s st = Some (Inr st')"
    and init: "I st"
    and step: "\<And>t brk t'. I t \<Longrightarrow> loopBody s t = Inr (brk, t') \<Longrightarrow> I t'"
  shows "I st'"
proof -
  have "(\<forall>t brk t'. I t \<longrightarrow> loopBody s t = Inr (brk, t') \<longrightarrow> I t') \<longrightarrow> I st \<longrightarrow>
          (\<forall>u. (Inr st' :: error + scan) = Inr u \<longrightarrow> I u)"
  proof (rule splitLoop.raw_induct
      [where P = "\<lambda>s st r. (\<forall>t brk t'. I t \<longrightarrow> loopBody s t = Inr (brk, t') \<longrightarrow> I t') \<longrightarrow>
                    I st \<longrightarrow> (\<forall>u. r = (Inr u :: error + scan) \<longrightarrow> I u)", OF _ run])
    fix f s st r
    assume IH: "\<And>a b y. f a b = Some y \<Longrightarrow>
                  (\<forall>t brk t'. I t \<longrightarrow> loopBody a t = Inr (brk, t') \<longrightarrow> I t') \<longrightarrow>
                  I b \<longrightarrow> (\<forall>u. y = Inr u \<longrightarrow> I u)"
      and eq: "(if dIdx st < int (length (content st))
                then case loopBody s st of
                       Inl e \<Rightarrow> Some (Inl e)
                     | Inr (brk, st') \<Rightarrow> if brk then Some (Inr st') else f s st'
                else Some (Inr st)) = Some r"
    show "(\<forall>t brk t'. I t \<longrightarrow> loopBody s t = Inr (brk, t') \<longrightarrow> I t') \<longrightarrow>
            I st \<longrightarrow> (\<forall>u. r = Inr u \<longrightarrow> I u)"
    proof (intro impI allI)
      fix u
      assume stp: "\<forall>t brk t'. I t \<longrightarrow> loopBody s t = Inr (brk, t') \<longrightarrow> I t'"
        and i: "I st" and r: "r = Inr u"
      show "I u"
      proof (cases "dIdx st < int (length (content st))")
        case False
        with eq r i show ?thesis by simp
      next
        case True
        show ?thesis
        proof (cases "loopBody s st")
          case (Inl e)
          with True eq r show ?thesis by simp
        next
          case (Inr p)
          obtain brk st1 where p: "p = (brk, st1)" by (cases p)
          from stp i Inr p have i1: "I st1" by blast
          show ?thesis
          proof (cases brk)
            case True
            with \<open>dIdx st < int (length (content st))\<close> eq r Inr p i1 show ?thesis by simp
          next
            case False
            with \<open>dIdx st < int (length (content st))\<close> eq Inr p have "f s st1 = Some r" by simp
            from IH[OF this] stp i1 r show ?thesis by blast
          qed
        qed
      qed
    qed
  qed
  with init step show ?thesis by blast
qed

lemma splitLoop_Contents:
  assumes "splitLoop s st = Some (Inr st')"
  shows "\<exists>more. Contents st' = Contents st @ more"
proof (rule splitLoop_invariant[OF assms, where I = "\<lambda>t. \<exists>more. Contents t = Contents st @ more"])
  show "\<exists>more. Contents st = Contents st @ more" by simp
next
  fix t brk t'
  assume "\<exists>more. Contents t = Contents st @ more" and "loopBody s t = Inr (brk, t')"
  with loopBody_Contents[of s t brk t'] show "\<exists>more. Contents t' = Contents st @ more"
    by auto
qed

lemma splitKeyValue_Contents:
  assumes "splitKeyValue s log c = Some (Inr (log', al))"
  shows "\<exists>more. log' = log @ more"
proof -
  from assms obtain r where r: "splitLoop s (initScan log c) = Some r"
    and m: "map_sum id (\<lambda>st. (Contents st, alarms st)) r = Inr (log', al)"
    by (auto simp: splitKeyValue_def)
  from m obtain st' where "r = Inr st'" "log' = Contents st'" by (cases r) auto
  with r have "splitLoop s (initScan log c) = Some (Inr st')" "log' = Contents st'" by simp_all
  with splitLoop_Contents[of s "initScan log c" st'] show ?thesis by (simp add: initScan_def)
qed

text \<open>
  With a non-empty delimiter and the quote extension out of play every iteration but the
  last cuts at least one byte from the content, so the loop returns, and without a panic.
\<close>

lemma splitLoop_total:
  assumes D: "Delimiter s \<noteq> []" and nq: "\<not> (QuoteFlag s \<and> Quote s \<noteq> [])"
  shows "\<exists>st'. splitLoop s st = Some (Inr st')"
proof (induction "length (content st)" arbitrary: st rule: less_induct)
  case less
  show ?case
  proof (cases "dIdx st < int (length (content st))")
    case False
    then show ?thesis by (subst splitLoop.simps) simp
  next
    case True
    define d where "d = strings_Index (content st) (Delimiter s)"
    define pair where "pair = (if d = - 1 then content st else take (nat d) (content st))"
    from nq have "concatQuotePair s pair (content st) d = Inr (pair, d)"
      by (rule concatQuotePair_noquote)
    from loopBody_plain[OF d_def pair_def this] obtain st1 where
      b: "loopBody s st =
            Inr (if d = - 1 then (True, st1)
                 else (False, st1\<lparr>content := drop (nat d + length (Delimiter s)) (content st)\<rparr>))"
      by blast
    show ?thesis
    proof (cases "d = - 1")
      case d1: True
      with True b show ?thesis by (subst splitLoop.simps) simp
    next
      case d1: False
      with strings_Index_range[of "content st" "Delimiter s"] d_def
      have "0 \<le> d" "d + int (length (Delimiter s)) \<le> int (length (content st))" by auto
      moreover from D have "0 < length (Delimiter s)" by simp
      ultimately have "0 < length (content st)" by linarith
      then have "content st \<noteq> []" by simp
      with D have "length (content (st1\<lparr>content := drop (nat d + length (Delimiter s)) (content st)\<rparr>))
                     < length (content st)" by simp
      from less[OF this] obtain st' where
        "splitLoop s (st1\<lparr>content := drop (nat d + length (Delimiter s)) (content st)\<rparr>) = Some (Inr st')"
        by blast
      with True b d1 show ?thesis by (subst splitLoop.simps) simp
    qed
  qed
qed

text \<open>Alarms raised before the scan stay in front of those the scan raises.\<close>

lemma splitLoop_alarms:
  assumes "splitLoop s st = Some r"
  shows "splitLoop s (st\<lparr>alarms := x @ alarms st\<rparr>) =
           Some (map_sum id (\<lambda>t. t\<lparr>alarms := x @ alarms t\<rparr>) r)"
proof (rule splitLoop.raw_induct
    [where P = "\<lambda>s st r. splitLoop s (st\<lparr>alarms := x @ alarms st\<rparr>) =
                  Some (map_sum id (\<lambda>t. t\<lparr>alarms := x @ alarms t\<rparr>) r)", OF _ assms])
  fix f s st r
  assume IH: "\<And>a b y. f a b = Some y \<Longrightarrow>
                splitLoop a (b\<lparr>alarms := x @ alarms b\<rparr>) =
                  Some (map_sum id (\<lambda>t. t\<lparr>alarms := x @ alarms t\<rparr>) y)"
    and eq: "(if dIdx st < int (length (content st))
              then case loopBody s st of
                     Inl e \<Rightarrow> Some (Inl e)
                   | Inr (brk, st') \<Rightarrow> if brk then Some (Inr st') else f s st'
              else Some (Inr st)) = Some r"
  show "splitLoop s (st\<lparr>alarms := x @ alarms st\<rparr>) =
          Some (map_sum id (\<lambda>t. t\<lparr>alarms := x @ alarms t\<rparr>) r)"
  proof (cases "dIdx st < int (length (content st))")
    case False
    with eq show ?thesis by (subst splitLoop.simps) auto
  next
    case True
    show ?thesis
    proof (cases "loopBody s st")
      case (Inl e)
      with True eq show ?thesis by (subst splitLoop.simps) (auto simp: loopBody_alarms)
    next
      case (Inr p)
      obtain brk st1 where p: "p = (brk, st1)" by (cases p)
      show ?thesis
      proof (cases brk)
        case b: True
        with True eq Inr p show ?thesis by (subst splitLoop.simps) (auto simp: loopBody_alarms)
      next
        case b: False
        with True eq Inr p have "f s st1 = Some r" by simp
        from IH[OF this] True Inr p b show ?thesis
          by (subst splitLoop.simps) (simp add: loopBody_alarms)
      qed
    qed
  qed
qed




section \<open>Facts about the counters\<close>

lemma scanInv_append:
  assumes inv: "scanInv s log st"
    and c: "Contents st' = Contents st @ [f]" and o: "origins st' = origins st @ [og]"
    and e: "emptyKeyIndex st' = emptyKeyIndex st + (if og = EmptyKey then 1 else 0)"
    and n: "noSeparatorKeyIndex st' = noSeparatorKeyIndex st + (if og = NoSeparatorKey then 1 else 0)"
    and ke: "og = EmptyKey \<Longrightarrow> Key f = EmptyKeyPrefix s @ Itoa (emptyKeyIndex st)"
    and kn: "og = NoSeparatorKey \<Longrightarrow> Key f = NoSeparatorKeyPrefix s @ Itoa (noSeparatorKeyIndex st)"
  shows "scanInv s log st'"
proof -
  from inv obtain more where m: "Contents st = log @ more" "length more = length (origins st)"
    "emptyKeyIndex st = int (count_list (origins st) EmptyKey)"
    "noSeparatorKeyIndex st = int (count_list (origins st) NoSeparatorKey)"
    and q: "\<And>i. i < length more \<Longrightarrow>
           (origins st ! i = EmptyKey \<longrightarrow>
              Key (more ! i) = EmptyKeyPrefix s @ Itoa (int (count_list (take i (origins st)) EmptyKey))) \<and>
           (origins st ! i = NoSeparatorKey \<longrightarrow>
              Key (more ! i) =
                NoSeparatorKeyPrefix s @ Itoa (int (count_list (take i (origins st)) NoSeparatorKey)))"
    unfolding scanInv_def by blast
  have 1: "Contents st' = log @ (more @ [f])" using c m by simp
  have 2: "length (more @ [f]) = length (origins st')" using o m by simp
  have 3: "emptyKeyIndex st' = int (count_list (origins st') EmptyKey)" using e o m by simp
  have 4: "noSeparatorKeyIndex st' = int (count_list (origins st') NoSeparatorKey)"
    using n o m by simp
  have 5: "(origins st' ! i = EmptyKey \<longrightarrow>
              Key ((more @ [f]) ! i) =
                EmptyKeyPrefix s @ Itoa (int (count_list (take i (origins st')) EmptyKey))) \<and>
           (origins st' ! i = NoSeparatorKey \<longrightarrow>
              Key ((more @ [f]) ! i) =
                NoSeparatorKeyPrefix s @
                Itoa (int (count_list (take i (origins st')) NoSeparatorKey)))"
    if "i < length (more @ [f])" for i
  proof (cases "i < length more")
    case True
    with q[OF True] m o show ?thesis by (simp add: nth_append)
  next
    case False
    with that have "i = length more" by simp
    with m o ke kn show ?thesis by (simp add: nth_append)
  qed
  show ?thesis unfolding scanInv_def using 1 2 3 4 5 by blast
qed

lemma scanInv_cong:
  "scanInv s log st \<Longrightarrow> Contents st' = Contents st \<Longrightarrow> origins st' = origins st \<Longrightarrow>
   emptyKeyIndex st' = emptyKeyIndex st \<Longrightarrow> noSeparatorKeyIndex st' = noSeparatorKeyIndex st \<Longrightarrow>
   scanInv s log st'"
  by (simp add: scanInv_def)

lemma handlePair_scanInv:
  assumes "scanInv s log st" and "handlePair s pair st = Inr st'"
  shows "scanInv s log st'"
proof -
  let ?pos = "strings_Index pair (Separator s)"
  show ?thesis
  proof (cases "?pos = - 1")
    case True
    show ?thesis
    proof (cases "DiscardWhenSeparatorNotFound s")
      case d: True
      with True assms(2) show ?thesis
        by (intro scanInv_cong[OF assms(1)]) (auto simp: handlePair_def Let_def)
    next
      case d: False
      with True assms(2) show ?thesis
        by (intro scanInv_append[OF assms(1), where og = NoSeparatorKey])
           (auto simp: handlePair_def Let_def)
    qed
  next
    case False
    with strings_Index_range[of pair "Separator s"]
    have r: "0 \<le> ?pos" "?pos + int (length (Separator s)) \<le> int (length pair)" by auto
    show ?thesis
    proof (cases "take (nat ?pos) pair = []")
      case k: True
      with False r assms(2) show ?thesis
        by (intro scanInv_append[OF assms(1), where og = EmptyKey])
           (auto simp: handlePair_def Let_def slice_to_def slice_from_def)
    next
      case k: False
      with False r assms(2) show ?thesis
        by (intro scanInv_append[OF assms(1), where og = PlainKey])
           (auto simp: handlePair_def Let_def slice_to_def slice_from_def)
    qed
  qed
qed

lemma loopBody_scanInv:
  assumes "scanInv s log st" and "loopBody s st = Inr (brk, st')"
  shows "scanInv s log st'"
proof -
  from loopBody_handlePair[OF assms(2)] obtain pair d st1 where
    h: "handlePair s pair (st\<lparr>dIdx := d\<rparr>) = Inr st1" and
    e: "st' = st1 \<or> (\<exists>c. st' = st1\<lparr>content := c\<rparr>)" by blast
  have "scanInv s log (st\<lparr>dIdx := d\<rparr>)" by (rule scanInv_cong[OF assms(1)]) simp_all
  from handlePair_scanInv[OF this h] have "scanInv s log st1" .
  with e show ?thesis by (auto intro: scanInv_cong)
qed

lemma scanInv_initScan: "scanInv s log (initScan log c)"
  by (simp add: scanInv_def initScan_def)

section \<open>Facts about the search for the source field\<close>

lemma rangeContents_None:
  "rangeContents s log i = None \<longleftrightarrow> (\<forall>c\<in>set log. \<not> (SourceKey s = [] \<or> SourceKey s = Key c))"
  by (induction log arbitrary: i) auto

lemma rangeContents_Some:
  "rangeContents s log i = Some (idx, c) \<Longrightarrow>
     \<exists>pre post. log = pre @ c # post \<and> idx = i + length pre \<and>
       (SourceKey s = [] \<or> SourceKey s = Key c) \<and>
       (\<forall>x\<in>set pre. \<not> (SourceKey s = [] \<or> SourceKey s = Key x))"
proof (induction log arbitrary: i)
  case Nil
  then show ?case by simp
next
  case (Cons a log)
  show ?case
  proof (cases "SourceKey s = [] \<or> SourceKey s = Key a")
    case True
    with Cons.prems have "idx = i" "c = a" by auto
    with True show ?thesis by (intro exI[of _ "[]"] exI[of _ log]) simp
  next
    case False
    with Cons.prems have "rangeContents s log (Suc i) = Some (idx, c)" by auto
    from Cons.IH[OF this] obtain pre post where
      "log = pre @ c # post" "idx = Suc i + length pre"
      "SourceKey s = [] \<or> SourceKey s = Key c"
      "\<forall>x\<in>set pre. \<not> (SourceKey s = [] \<or> SourceKey s = Key x)" by blast
    with False show ?thesis by (intro exI[of _ "a # pre"] exI[of _ post]) simp
  qed
qed

section \<open>Scenarios\<close>

text \<open>
  C1. Scenario 1 of the specification expects the fields \<open>(a, 1)\<close> and \<open>(b, 2)\<close> for the
  source value \<^verbatim>\<open>a:1\tb:2\<close> under the default configuration. The code appends only
  \<open>(a, 1)\<close>: after the first pair \<open>dIdx\<close> is 3 and the remaining content \<^verbatim>\<open>b:2\<close> has
  length 3, so the loop test \<^verbatim>\<open>dIdx < len(content)\<close> fails and the second pair is never
  read.
\<close>

theorem scenario1_second_pair_dropped:
  "splitKeyValue newKeyValueSplitter [] (''a:1'' @ [CHR 0x09] @ ''b:2'') =
     Some (Inr ([\<lparr>Key = ''a'', Value = ''1''\<rparr>], []))"
  by (simp add: splitKeyValue_def initScan_def splitLoop.simps config_defs scan_defs)

text \<open>
  C5. Scenario 4: with quoting enabled, the source value \<^verbatim>\<open>c:"x\ty"\<close> yields the single
  field \<open>(c, x\ty)\<close>; the tab inside the quotes does not end the pair and the quotes are
  stripped from the value. No alarm is raised.
\<close>

theorem scenario4_quoted_delimiter:
  "splitKeyValue quoteSplitter []
     (''c:'' @ [CHR 0x22] @ ''x'' @ [CHR 0x09] @ ''y'' @ [CHR 0x22]) =
     Some (Inr ([\<lparr>Key = ''c'', Value = ''x'' @ [CHR 0x09] @ ''y''\<rparr>], []))"
  by (simp add: splitKeyValue_def initScan_def splitLoop.simps config_defs quoteSplitter_def scan_defs)

section \<open>Termination\<close>

text \<open>
  With a delimiter of two bytes the quote extension can leave \<open>dIdx\<close> one byte before the
  end of the content. Then \<^verbatim>\<open>dIdx+len(s.Delimiter) <= len(content)\<close> is false, the content
  is not cut, and \<^verbatim>\<open>dIdx < len(content)\<close> is true: the next iteration starts from the same
  content.
\<close>

lemma loopBody_twoTabContent:
  "content st = twoTabContent \<Longrightarrow>
     \<exists>st'. loopBody twoTabSplitter st = Inr (False, st') \<and> content st' = twoTabContent \<and>
           dIdx st' = 8"
  by (simp add: twoTabContent_def config_defs quoteSplitter_def twoTabSplitter_def scan_defs Let_def)

lemma splitLoop_twoTabContent:
  assumes "splitLoop s st = Some r"
  shows "\<not> (s = twoTabSplitter \<and> content st = twoTabContent \<and> dIdx st < 9)"
proof (rule splitLoop.raw_induct
    [where P = "\<lambda>s st r. \<not> (s = twoTabSplitter \<and> content st = twoTabContent \<and> dIdx st < 9)",
      OF _ assms])
  fix f s st r
  assume IH: "\<And>a b y. f a b = Some y \<Longrightarrow>
                \<not> (a = twoTabSplitter \<and> content b = twoTabContent \<and> dIdx b < 9)"
    and eq: "(if dIdx st < int (length (content st))
              then case loopBody s st of
                     Inl e \<Rightarrow> Some (Inl e)
                   | Inr (brk, st') \<Rightarrow> if brk then Some (Inr st') else f s st'
              else Some (Inr st)) = Some r"
  show "\<not> (s = twoTabSplitter \<and> content st = twoTabContent \<and> dIdx st < 9)"
  proof
    assume a: "s = twoTabSplitter \<and> content st = twoTabContent \<and> dIdx st < 9"
    then obtain st' where b: "loopBody twoTabSplitter st = Inr (False, st')"
      "content st' = twoTabContent" "dIdx st' = 8"
      using loopBody_twoTabContent by blast
    have "length twoTabContent = 9" by (simp add: twoTabContent_def)
    with a b eq have "f twoTabSplitter st' = Some r" by simp
    from IH[OF this] b show False by simp
  qed
qed

text \<open>
  C2. The claim is that the scan ends for every configuration with a non-empty delimiter.
  With the delimiter \<^verbatim>\<open>\t\t\<close>, quoting enabled and the source value \<^verbatim>\<open>c:"x\t\ty"z\<close>
  the loop of \<open>splitKeyValue\<close> never ends (and appends the field \<open>(c, x\t\ty)\<close> again in
  every iteration). The scan does end when the quote extension is out of play
  (\<open>splitLoop_total\<close>).
\<close>

theorem splitKeyValue_two_byte_delimiter_diverges:
  "splitKeyValue twoTabSplitter [] twoTabContent = None"
proof (cases "splitLoop twoTabSplitter (initScan [] twoTabContent)")
  case None
  then show ?thesis by (simp add: splitKeyValue_def)
next
  case (Some r)
  from splitLoop_twoTabContent[OF this] show ?thesis by (simp add: initScan_def)
qed

section \<open>A trailing and a leading delimiter\<close>




text \<open>
  C10. For an initialised configuration with quoting disabled and a source value that
  begins with the delimiter, the first iteration extracts the empty pair and handles it
  by the no-separator policy: it leaves the scan at the rest of the value with the
  field \<open>(NoSeparatorKeyPrefix + "0", "")\<close> appended and the no-separator counter at 1,
  or, when \<open>DiscardWhenSeparatorNotFound\<close> is set, with no field appended and both
  counters at 0. In the first case the scan returns a log in which that field comes
  right after the fields the log had, before any other derived field; in the second the
  log it returns is the one the scan of the rest alone returns.
\<close>

theorem leading_delimiter_empty_pair:
  assumes "\<not> QuoteFlag s0" and "s = Init s0"
  shows "loopBody s (initScan log (Delimiter s @ rest)) =
           Inr (False,
             \<lparr>content = rest, dIdx = 0, emptyKeyIndex = 0,
              noSeparatorKeyIndex = (if DiscardWhenSeparatorNotFound s then 0 else 1),
              Contents = (if DiscardWhenSeparatorNotFound s then log
                          else log @ [\<lparr>Key = NoSeparatorKeyPrefix s @ ''0'', Value = []\<rparr>]),
              alarms = (if ErrIfSeparatorNotFound s then [CanNotFindSeparator []] else []),
              origins = (if DiscardWhenSeparatorNotFound s then [] else [NoSeparatorKey])\<rparr>) \<and>
         (\<not> DiscardWhenSeparatorNotFound s \<longrightarrow>
            (\<exists>more al. splitKeyValue s log (Delimiter s @ rest) =
               Some (Inr (log @ \<lparr>Key = NoSeparatorKeyPrefix s @ ''0'', Value = []\<rparr> # more, al)))) \<and>
         (DiscardWhenSeparatorNotFound s \<longrightarrow>
            map_option (map_sum id fst) (splitKeyValue s log (Delimiter s @ rest)) =
            map_option (map_sum id fst) (splitKeyValue s log rest))"
proof -
  let ?D = "Delimiter s"
  let ?A = "if ErrIfSeparatorNotFound s then [CanNotFindSeparator []] else []"
  let ?f0 = "\<lparr>Key = NoSeparatorKeyPrefix s @ ''0'', Value = []\<rparr>"
  let ?st0 = "initScan log (?D @ rest)"
  let ?X = "\<lparr>content = rest, dIdx = 0, emptyKeyIndex = 0,
              noSeparatorKeyIndex = (if DiscardWhenSeparatorNotFound s then 0 else 1),
              Contents = (if DiscardWhenSeparatorNotFound s then log else log @ [?f0]),
              alarms = ?A,
              origins = (if DiscardWhenSeparatorNotFound s then [] else [NoSeparatorKey])\<rparr>"
  from assms Init_nonempty[of s0] Init_QuoteFlag[of s0]
  have D: "?D \<noteq> []" and S: "Separator s \<noteq> []" and nq: "\<not> QuoteFlag s" by simp_all
  have nq': "\<not> (QuoteFlag s \<and> Quote s \<noteq> [])" using nq by simp
  have c0: "content ?st0 = ?D @ rest" by (simp add: initScan_def)
  have "HasPrefix (?D @ rest) ?D" by (simp add: HasPrefix_def)
  then have i0: "strings_Index (?D @ rest) ?D = 0" by (rule strings_Index_HasPrefix)
  have d: "(0::int) = strings_Index (content ?st0) ?D" using i0 c0 by simp
  have pr: "[] = (if (0::int) = - 1 then content ?st0 else take (nat 0) (content ?st0))" by simp
  have cq: "concatQuotePair s [] (content ?st0) 0 = Inr ([], 0)"
    using nq' by (rule concatQuotePair_noquote)
  have hp: "handlePair s [] (?st0\<lparr>dIdx := 0\<rparr>) = Inr (?X\<lparr>content := ?D @ rest\<rparr>)"
    using S by (simp add: handlePair_def initScan_def Let_def getValue_def HasPrefix_def Itoa_0)
  from loopBody_plain[OF d pr cq] hp
  have body: "loopBody s ?st0 = Inr (False, ?X)" by (simp add: c0)
  from D have run: "dIdx ?st0 < int (length (content ?st0))"
    by (cases ?D) (simp_all add: initScan_def)
  with body have unroll: "splitLoop s ?st0 = splitLoop s ?X"
    by (subst splitLoop.simps) simp
  have keep: "\<exists>more al. splitKeyValue s log (?D @ rest) = Some (Inr (log @ ?f0 # more, al))"
    if nd: "\<not> DiscardWhenSeparatorNotFound s"
  proof -
    from splitLoop_total[OF D nq'] obtain st' where t: "splitLoop s ?X = Some (Inr st')" by blast
    from splitLoop_Contents[OF t] nd obtain more where "Contents st' = log @ ?f0 # more" by auto
    with unroll t show ?thesis by (simp add: splitKeyValue_def)
  qed
  have discard: "map_option (map_sum id fst) (splitKeyValue s log (?D @ rest)) =
                 map_option (map_sum id fst) (splitKeyValue s log rest)"
    if dd: "DiscardWhenSeparatorNotFound s"
  proof -
    from splitLoop_total[OF D nq'] obtain st' where
      t: "splitLoop s (initScan log rest) = Some (Inr st')" by blast
    have "?X = (initScan log rest)\<lparr>alarms := ?A @ alarms (initScan log rest)\<rparr>"
      using dd by (simp add: initScan_def)
    with splitLoop_alarms[OF t, of ?A]
    have "splitLoop s ?X = Some (Inr (st'\<lparr>alarms := ?A @ alarms st'\<rparr>))" by simp
    with unroll t show ?thesis by (simp add: splitKeyValue_def)
  qed
  from body keep discard show ?thesis by blast
qed

theorem leading_delimiter_empty_pair_witness:
  "\<not> QuoteFlag newKeyValueSplitter \<and> newKeyValueSplitter = Init newKeyValueSplitter \<and>
   (\<exists>more al. splitKeyValue newKeyValueSplitter [] ([CHR 0x09] @ ''a:1'') =
      Some (Inr (\<lparr>Key = ''no_separator_key_0'', Value = []\<rparr> # more, al))) \<and>
   \<not> QuoteFlag discardSplitter \<and> discardSplitter = Init discardSplitter \<and>
   map_option (map_sum id fst) (splitKeyValue discardSplitter [] ([CHR 0x09] @ ''a:1'')) =
     map_option (map_sum id fst) (splitKeyValue discardSplitter [] ''a:1'')"
proof -
  have q1: "\<not> QuoteFlag newKeyValueSplitter" by (simp add: config_defs discardSplitter_def)
  have i1: "newKeyValueSplitter = Init newKeyValueSplitter"
    by (simp add: Init_def config_defs discardSplitter_def)
  have q2: "\<not> QuoteFlag discardSplitter" by (simp add: config_defs discardSplitter_def)
  have i2: "discardSplitter = Init discardSplitter"
    by (simp add: Init_def config_defs discardSplitter_def)
  have k: "\<not> DiscardWhenSeparatorNotFound newKeyValueSplitter"
    "Delimiter newKeyValueSplitter = [CHR 0x09]"
    "NoSeparatorKeyPrefix newKeyValueSplitter = ''no_separator_key_''"
    "DiscardWhenSeparatorNotFound discardSplitter" "Delimiter discardSplitter = [CHR 0x09]"
    by (simp_all add: config_defs discardSplitter_def)
  from leading_delimiter_empty_pair[OF q1 i1, of "[]" "''a:1''"] k
  have a: "\<exists>more al. splitKeyValue newKeyValueSplitter [] ([CHR 0x09] @ ''a:1'') =
      Some (Inr (\<lparr>Key = ''no_separator_key_0'', Value = []\<rparr> # more, al))"
    by simp
  from leading_delimiter_empty_pair[OF q2 i2, of "[]" "''a:1''"] k
  have b: "map_option (map_sum id fst) (splitKeyValue discardSplitter [] ([CHR 0x09] @ ''a:1'')) =
     map_option (map_sum id fst) (splitKeyValue discardSplitter [] ''a:1'')"
    by simp
  from q1 i1 a q2 i2 b show ?thesis by blast
qed

section \<open>A source value with one pair\<close>

text \<open>
  Where the quote extension does not apply (quoting is disabled, or the quote is empty,
  or the value ends with the quote, or it neither starts with the quote nor contains
  separator+quote at an index above 0), a non-empty value with a separator and no
  delimiter is the last pair: one field is appended and the loop is left by \<^verbatim>\<open>break\<close>.
\<close>

lemma single_pair_without_quote_extension:
  assumes "c \<noteq> []" and "strings_Index c (Separator s) \<noteq> - 1"
    and "strings_Index c (Delimiter s) = - 1"
    and "\<not> QuoteFlag s \<or> Quote s = [] \<or> HasSuffix c (Quote s) \<or>
         (strings_Index c (Separator s @ Quote s) \<le> 0 \<and> \<not> HasPrefix c (Quote s))"
  shows "\<exists>al. splitKeyValue s log c =
           Some (Inr (log @
             [\<lparr>Key = (if strings_Index c (Separator s) = 0 then EmptyKeyPrefix s @ ''0''
                      else take (nat (strings_Index c (Separator s))) c),
               Value = getValue s
                 (drop (nat (strings_Index c (Separator s)) + length (Separator s)) c)\<rparr>],
             al))"
proof -
  let ?pos = "strings_Index c (Separator s)"
  from assms(2) strings_Index_range[of c "Separator s"]
  have r: "0 \<le> ?pos" "?pos + int (length (Separator s)) \<le> int (length c)" by auto
  then have n: "nat (?pos + int (length (Separator s))) = nat ?pos + length (Separator s)" by simp
  have q: "concatQuotePair s c c (- 1) = Inr (c, - 1)"
    by (rule concatQuotePair_not_applied[OF assms(4)]) simp_all
  have k: "take (nat ?pos) c = [] \<longleftrightarrow> ?pos = 0" using r assms(1) by auto
  have "\<exists>st1. loopBody s (initScan log c) = Inr (True, st1) \<and>
          Contents st1 = log @
             [\<lparr>Key = (if ?pos = 0 then EmptyKeyPrefix s @ ''0'' else take (nat ?pos) c),
               Value = getValue s (drop (nat ?pos + length (Separator s)) c)\<rparr>]"
    using assms(2,3) r n q k
    by (simp add: loopBody_def handlePair_def initScan_def Let_def slice_to_def slice_from_def Itoa_0)
  then obtain st1 where "loopBody s (initScan log c) = Inr (True, st1)" and
    "Contents st1 = log @
             [\<lparr>Key = (if ?pos = 0 then EmptyKeyPrefix s @ ''0'' else take (nat ?pos) c),
               Value = getValue s (drop (nat ?pos + length (Separator s)) c)\<rparr>]" by blast
  moreover have "dIdx (initScan log c) < int (length (content (initScan log c)))"
    using assms(1) by (simp add: initScan_def)
  ultimately have "splitLoop s (initScan log c) = Some (Inr st1)"
    by (subst splitLoop.simps) simp
  with \<open>Contents st1 = _\<close> show ?thesis by (simp add: splitKeyValue_def)
qed

text \<open>
  C4. The specification expects exactly one field for every non-empty value that
  contains the separator and not the delimiter, under every configuration. With quoting
  enabled the code appends two fields for the value \<^verbatim>\<open>a:"bcdef\<close>: \<open>concatQuotePair\<close> runs
  although no delimiter was found (\<open>dIdx = -1\<close>), searches \<^verbatim>\<open>content[dIdx+1:]\<close>, which is
  the whole value, finds the opening quote itself and sets \<open>dIdx\<close> to 3. The test
  \<^verbatim>\<open>if dIdx == -1 { break }\<close> no longer holds, the byte \<^verbatim>\<open>b\<close> is skipped as if it were a
  delimiter, and the rest \<^verbatim>\<open>cdef\<close> becomes a second field.
\<close>

theorem single_pair_unclosed_quote_two_fields:
  "''a:'' @ [CHR 0x22] @ ''bcdef'' \<noteq> [] \<and>
   strings_Index (''a:'' @ [CHR 0x22] @ ''bcdef'') (Separator quoteSplitter) \<noteq> - 1 \<and>
   strings_Index (''a:'' @ [CHR 0x22] @ ''bcdef'') (Delimiter quoteSplitter) = - 1 \<and>
   splitKeyValue quoteSplitter [] (''a:'' @ [CHR 0x22] @ ''bcdef'') =
     Some (Inr ([\<lparr>Key = ''a'', Value = [CHR 0x22]\<rparr>,
                 \<lparr>Key = ''no_separator_key_0'', Value = ''cdef''\<rparr>],
                [CanNotFindSeparator ''cdef'']))"
  by (simp add: splitKeyValue_def initScan_def splitLoop.simps config_defs quoteSplitter_def
      scan_defs Itoa_def digits.simps digit_char_def)

section \<open>The quote extension without a closing quote\<close>

text \<open>
  When the pair opens a quote, does not end with it, and no quote occurs in
  \<^verbatim>\<open>content[dIdx+1:]\<close>, the boundary is moved by \<open>len(separator) + len(quote) - 1\<close>. Where
  the moved boundary is still inside the content, the pair is the content up to it.
\<close>

lemma concatQuotePair_boundary_in_range:
  assumes "QuoteFlag s" and "Quote s \<noteq> []" and "\<not> HasSuffix pair (Quote s)"
    and "strings_Index pair (Separator s @ Quote s) > 0 \<or> HasPrefix pair (Quote s)"
    and "0 \<le> d + 1" and "d + 1 \<le> int (length c)"
    and "strings_Index (drop (nat (d + 1)) c) (Quote s) = - 1"
    and "length (Separator s) + length (Quote s) \<ge> 2"
    and "d + (int (length (Separator s)) + int (length (Quote s)) - 1) \<le> int (length c)"
  shows "concatQuotePair s pair c d =
           Inr (take (nat (d + (int (length (Separator s)) + int (length (Quote s)) - 1))) c,
                d + (int (length (Separator s)) + int (length (Quote s)) - 1))"
  using assms by (simp add: concatQuotePair_def slice_from_def slice_to_def Let_def)

text \<open>
  With the separator \<^verbatim>\<open>::\<close> the moved boundary also passes the end of a value whose quote
  is closed: \<^verbatim>\<open>c::"x\ty"\<close> panics as well.
\<close>

lemma wide_separator_closed_quote_panics:
  "splitKeyValue wideSeparatorSplitter []
     (''c::'' @ [CHR 0x22] @ ''x'' @ [CHR 0x09] @ ''y'' @ [CHR 0x22]) =
     Some (Inl SliceBoundsOutOfRange)"
  by (simp add: splitKeyValue_def initScan_def splitLoop.simps config_defs quoteSplitter_def
      wideSeparatorSplitter_def scan_defs)

text \<open>
  C9. The claim has the boundary moved and the pair re-extracted up to the new boundary
  whenever \<open>len(separator) + len(quote) \<ge> 2\<close>. With the separator \<^verbatim>\<open>::\<close> and the source
  value \<^verbatim>\<open>"x\t\<close> the pair \<^verbatim>\<open>"x\<close> opens a quote and no quote follows the delimiter at
  index 2; the boundary moves to 4, past the end of the content of 3 bytes, and the slice
  \<^verbatim>\<open>content[:dIdx]\<close>, which no test guards, panics: no pair is re-extracted, and
  \<open>splitKeyValue\<close> panics on that value.
\<close>

theorem concatQuotePair_moved_boundary_panics:
  "QuoteFlag wideSeparatorSplitter \<and> Quote wideSeparatorSplitter \<noteq> [] \<and>
   \<not> HasSuffix ([CHR 0x22] @ ''x'') (Quote wideSeparatorSplitter) \<and>
   HasPrefix ([CHR 0x22] @ ''x'') (Quote wideSeparatorSplitter) \<and>
   strings_Index (drop 3 ([CHR 0x22] @ ''x'' @ [CHR 0x09])) (Quote wideSeparatorSplitter) = - 1 \<and>
   length (Separator wideSeparatorSplitter) + length (Quote wideSeparatorSplitter) \<ge> 2 \<and>
   concatQuotePair wideSeparatorSplitter ([CHR 0x22] @ ''x'') ([CHR 0x22] @ ''x'' @ [CHR 0x09]) 2 =
     Inl SliceBoundsOutOfRange \<and>
   splitKeyValue wideSeparatorSplitter [] ([CHR 0x22] @ ''x'' @ [CHR 0x09]) =
     Some (Inl SliceBoundsOutOfRange)"
  by (simp add: splitKeyValue_def initScan_def splitLoop.simps config_defs quoteSplitter_def
      wideSeparatorSplitter_def scan_defs)

section \<open>The two counters\<close>

text \<open>
  C7. When a scan that began with both counters at 0 returns, the fields it appended
  stand after the fields the log had, one for each entry of \<open>origins\<close>; the field at
  position \<open>i\<close> that was given a key for an empty key has the key \<open>EmptyKeyPrefix\<close>
  followed by the number of such fields appended before it, and the field at position
  \<open>i\<close> that was appended for a pair without a separator has the key
  \<open>NoSeparatorKeyPrefix\<close> followed by the number of such fields appended before it. So
  the N-th field of either kind carries the suffix N-1, each kind counted apart from the
  other, in every call of \<open>splitKeyValue\<close> anew.
\<close>

theorem synthesized_key_suffixes:
  assumes "splitLoop s (initScan log c) = Some (Inr st')"
  shows "\<exists>more. Contents st' = log @ more \<and> length more = length (origins st') \<and>
           (\<forall>i<length more.
              (origins st' ! i = EmptyKey \<longrightarrow>
                 Key (more ! i) =
                   EmptyKeyPrefix s @ Itoa (int (count_list (take i (origins st')) EmptyKey))) \<and>
              (origins st' ! i = NoSeparatorKey \<longrightarrow>
                 Key (more ! i) =
                   NoSeparatorKeyPrefix s @
                   Itoa (int (count_list (take i (origins st')) NoSeparatorKey))))"
proof -
  have "scanInv s log st'"
    using assms scanInv_initScan loopBody_scanInv by (rule splitLoop_invariant)
  then show ?thesis unfolding scanInv_def by blast
qed

theorem synthesized_key_suffixes_witness:
  "splitLoop newKeyValueSplitter (initScan [] counterContent) = Some (Inr counterEnd) \<and>
   (\<exists>more. Contents counterEnd = [] @ more \<and> length more = length (origins counterEnd) \<and>
      (\<forall>i<length more.
         (origins counterEnd ! i = EmptyKey \<longrightarrow>
            Key (more ! i) =
              EmptyKeyPrefix newKeyValueSplitter @
              Itoa (int (count_list (take i (origins counterEnd)) EmptyKey))) \<and>
         (origins counterEnd ! i = NoSeparatorKey \<longrightarrow>
            Key (more ! i) =
              NoSeparatorKeyPrefix newKeyValueSplitter @
              Itoa (int (count_list (take i (origins counterEnd)) NoSeparatorKey)))))"
proof -
  have h: "splitLoop newKeyValueSplitter (initScan [] counterContent) = Some (Inr counterEnd)"
    by (simp add: initScan_def splitLoop.simps counterContent_def counterEnd_def config_defs
        scan_defs Let_def Itoa_def digits.simps digit_char_def)
  from h synthesized_key_suffixes[OF h] show ?thesis by (rule conjI)
qed

section \<open>Processing a record\<close>

text \<open>
  C8. When no field of the record is the source field (no key equals \<open>SourceKey\<close>, and
  the record is empty when \<open>SourceKey\<close> is empty), \<open>processLog\<close> returns the record as it
  was; the only effect is the alarm "can not find key", raised when
  \<open>ErrIfSourceKeyNotFound\<close> is set.
\<close>

theorem processLog_source_absent:
  assumes "\<forall>c\<in>set log. \<not> (SourceKey s = [] \<or> SourceKey s = Key c)"
  shows "processLog s log =
           Some (Inr (log, if ErrIfSourceKeyNotFound s then [CanNotFindKey (SourceKey s)] else []))"
proof -
  from assms have "rangeContents s log 0 = None" by (simp add: rangeContents_None)
  then show ?thesis by (simp add: processLog_def)
qed

theorem processLog_source_absent_witness:
  "\<not> (SourceKey scenario5Splitter = [] \<or> SourceKey scenario5Splitter = ''x'') \<and>
   processLog scenario5Splitter [\<lparr>Key = ''x'', Value = ''a:1''\<rparr>] =
     Some (Inr ([\<lparr>Key = ''x'', Value = ''a:1''\<rparr>], [CanNotFindKey ''msg'']))"
proof -
  have k: "SourceKey scenario5Splitter = ''msg''" "ErrIfSourceKeyNotFound scenario5Splitter"
    by (simp_all add: config_defs scenario5Splitter_def)
  then have "\<forall>c\<in>set [\<lparr>Key = ''x'', Value = ''a:1''\<rparr>].
      \<not> (SourceKey scenario5Splitter = [] \<or> SourceKey scenario5Splitter = Key c)" by simp
  from processLog_source_absent[OF this] k show ?thesis by simp
qed

text \<open>
  C6. When \<open>processLog\<close> returns, the record is the fields it had, in their order, with
  the first source field taken out when there is one and \<open>KeepSource\<close> is false,
  followed by the fields the scan appended; so it has at most one field less than
  before. (A call that panics or does not end returns no record.)
\<close>

theorem processLog_frame:
  assumes "processLog s log = Some (Inr (log', al))"
  shows "\<exists>more.
           (if \<not> KeepSource s \<and> (\<exists>c\<in>set log. SourceKey s = [] \<or> SourceKey s = Key c)
            then \<exists>pre src post.
                   log = pre @ src # post \<and> (SourceKey s = [] \<or> SourceKey s = Key src) \<and>
                   (\<forall>c\<in>set pre. \<not> (SourceKey s = [] \<or> SourceKey s = Key c)) \<and>
                   log' = pre @ post @ more
            else log' = log @ more) \<and>
           length log \<le> Suc (length log')"
proof (cases "rangeContents s log 0")
  case None
  with assms have "log' = log" by (simp add: processLog_def)
  moreover from None have "\<not> (\<exists>c\<in>set log. SourceKey s = [] \<or> SourceKey s = Key c)"
    by (simp add: rangeContents_None)
  ultimately show ?thesis by simp
next
  case (Some p)
  obtain idx src where p: "p = (idx, src)" by (cases p)
  from rangeContents_Some[OF Some[unfolded p]] obtain pre post where
    l: "log = pre @ src # post" and i: "idx = length pre" and
    m: "SourceKey s = [] \<or> SourceKey s = Key src" and
    n: "\<forall>x\<in>set pre. \<not> (SourceKey s = [] \<or> SourceKey s = Key x)" by auto
  have found: "\<exists>c\<in>set log. SourceKey s = [] \<or> SourceKey s = Key c" using l m by auto
  show ?thesis
  proof (cases "KeepSource s")
    case True
    with assms Some p have "splitKeyValue s log (Value src) = Some (Inr (log', al))"
      by (simp add: processLog_def)
    from splitKeyValue_Contents[OF this] obtain more where "log' = log @ more" ..
    with True show ?thesis by auto
  next
    case False
    have "take idx log @ drop (idx + 1) log = pre @ post" using l i by simp
    with False assms Some p have "splitKeyValue s (pre @ post) (Value src) = Some (Inr (log', al))"
      by (simp add: processLog_def)
    from splitKeyValue_Contents[OF this] obtain more where e: "log' = (pre @ post) @ more" ..
    have "\<exists>pre src post.
            log = pre @ src # post \<and> (SourceKey s = [] \<or> SourceKey s = Key src) \<and>
            (\<forall>c\<in>set pre. \<not> (SourceKey s = [] \<or> SourceKey s = Key c)) \<and>
            log' = pre @ post @ more"
      using l m n e by (intro exI[of _ pre] exI[of _ src] exI[of _ post]) simp
    moreover have "length log \<le> Suc (length log')" using l e by simp
    ultimately show ?thesis using False found by (intro exI[of _ more]) simp
  qed
qed

theorem processLog_frame_witness:
  "processLog scenario5Splitter scenario5Log =
     Some (Inr ([\<lparr>Key = ''x'', Value = ''y''\<rparr>, \<lparr>Key = ''a'', Value = ''1''\<rparr>], [])) \<and>
   (\<exists>more pre src post.
      scenario5Log = pre @ src # post \<and> Key src = ''msg'' \<and>
      [\<lparr>Key = ''x'', Value = ''y''\<rparr>, \<lparr>Key = ''a'', Value = ''1''\<rparr>] = pre @ post @ more)"
proof -
  have h: "processLog scenario5Splitter scenario5Log =
     Some (Inr ([\<lparr>Key = ''x'', Value = ''y''\<rparr>, \<lparr>Key = ''a'', Value = ''1''\<rparr>], []))"
    by (simp add: processLog_def scenario5Log_def splitKeyValue_def initScan_def splitLoop.simps
        config_defs scenario5Splitter_def scan_defs)
  have k: "\<not> KeepSource scenario5Splitter" "SourceKey scenario5Splitter = ''msg''"
    "\<exists>c\<in>set scenario5Log. SourceKey scenario5Splitter = [] \<or> SourceKey scenario5Splitter = Key c"
    by (simp_all add: config_defs scenario5Splitter_def scenario5Log_def)
  from processLog_frame[OF h] k(1,3) obtain more pre src post where
    l: "scenario5Log = pre @ src # post"
    and m: "SourceKey scenario5Splitter = [] \<or> SourceKey scenario5Splitter = Key src"
    and e: "[\<lparr>Key = ''x'', Value = ''y''\<rparr>, \<lparr>Key = ''a'', Value = ''1''\<rparr>] = pre @ post @ more"
    by auto
  from m k(2) have "Key src = ''msg''" by simp
  with l e have "\<exists>more pre src post.
      scenario5Log = pre @ src # post \<and> Key src = ''msg'' \<and>
      [\<lparr>Key = ''x'', Value = ''y''\<rparr>, \<lparr>Key = ''a'', Value = ''1''\<rparr>] = pre @ post @ more"
    by blast
  with h show ?thesis by (rule conjI)
qed

end
